theory Spec2Isabelle
  imports Main "HOL-Library.Sublist" "HOL-Library.Multiset"
begin

section \<open>Lines and their fixed-column fields\<close>

text \<open>
  The model of \<^verbatim>\<open>run\<close> in \<^verbatim>\<open>pdbtools/pdb_reordername.py\<close>.
  A line is a Python \<^verbatim>\<open>str\<close>, read here as the list of its characters; a
  \<^typ>\<open>char\<close> stands for a code point below 256.
\<close>

type_synonym line = string

text \<open>\<^verbatim>\<open>records = ('ATOM', 'HETATM', 'ANISOU', 'TER')\<close>\<close>

definition records :: "string list" where
  "records = [''ATOM'', ''HETATM'', ''ANISOU'', ''TER'']"

text \<open>\<^verbatim>\<open>s.startswith(prefixes)\<close> with a tuple of prefixes: some prefix matches.\<close>

fun startswith :: "string \<Rightarrow> string list \<Rightarrow> bool" where
  "startswith s [] = False"
| "startswith s (p # ps) = (prefix p s \<or> startswith s ps)"

text \<open>
  \<^verbatim>\<open>s[i:j]\<close> for constants \<open>0 \<le> i \<le> j\<close>: Python slicing never raises; a slice
  that starts past the end of the string is empty, one that ends past it is cut short.
\<close>

definition slice :: "nat \<Rightarrow> nat \<Rightarrow> 'a list \<Rightarrow> 'a list" where
  "slice i j s = take (j - i) (drop i s)"

text \<open>
  \<^verbatim>\<open>str.isspace\<close> on one character, for the code points below 256: the ASCII
  controls 9 to 13 and 28 to 31, the space, NEL (0x85) and the no-break space (0xA0).
\<close>

definition isspace :: "char \<Rightarrow> bool" where
  "isspace c = (c \<in> set [CHR 0x09, CHR 0x0A, CHR 0x0B, CHR 0x0C, CHR 0x0D,
                          CHR 0x1C, CHR 0x1D, CHR 0x1E, CHR 0x1F, CHR 0x20,
                          CHR 0x85, CHR 0xA0])"

text \<open>\<^verbatim>\<open>s.strip()\<close>: whitespace removed at both ends.\<close>

definition strip :: "string \<Rightarrow> string" where
  "strip s = rev (dropWhile isspace (rev (dropWhile isspace s)))"

text \<open>
  The three fields \<^verbatim>\<open>run\<close> reads, as it writes them: \<^verbatim>\<open>line[17:20].strip()\<close>,
  \<^verbatim>\<open>line[12:16].strip()\<close> and \<^verbatim>\<open>line[22:26].strip()\<close>; and its test for a line that
  goes to a bucket: a record line whose residue name is in \<^verbatim>\<open>resname_set\<close>.
\<close>

abbreviation resname_of :: "line \<Rightarrow> string" where
  "resname_of l \<equiv> strip (slice 17 20 l)"

abbreviation atom_name_of :: "line \<Rightarrow> string" where
  "atom_name_of l \<equiv> strip (slice 12 16 l)"

abbreviation resid_of :: "line \<Rightarrow> string" where
  "resid_of l \<equiv> strip (slice 22 26 l)"

abbreviation matching :: "string set \<Rightarrow> line \<Rightarrow> bool" where
  "matching resname_set l \<equiv> startswith l records \<and> resname_of l \<in> resname_set"

section \<open>Phase 1: learning the reference atom order\<close>

text \<open>
  The first loop of \<^verbatim>\<open>run\<close> (source lines 142 to 158). \<^verbatim>\<open>fhandle\<close> is a one-shot
  iterator (a file object in \<^verbatim>\<open>main\<close>), so what the loop has not consumed when it
  breaks is what the second loop reads: the result records the lines yielded, the
  dictionary \<^verbatim>\<open>ref_atom_order\<close>, \<^verbatim>\<open>buffer_line\<close> (\<open>None\<close> unless the loop broke) and
  the rest of the iterator.

  A record line whose residue name is not in \<^verbatim>\<open>resname_set\<close> takes neither branch of
  the inner \<^verbatim>\<open>if\<close> and the \<^verbatim>\<open>else\<close> of line 156 belongs to the outer \<^verbatim>\<open>if\<close>: the loop
  goes on to the next line and nothing is yielded for it.
\<close>

record learned =
  yielded :: "line list"
  ref_atom_order :: "string \<rightharpoonup> string list"
  buffer_line :: "line option"
  remaining :: "line list"

fun learn :: "string set \<Rightarrow> (string \<rightharpoonup> string list) \<Rightarrow> line list \<Rightarrow> learned" where
  "learn resname_set ref [] =
     \<lparr>yielded = [], ref_atom_order = ref, buffer_line = None, remaining = []\<rparr>"
| "learn resname_set ref (l # fhandle) =
     (if startswith l records then
        (let resname = strip (slice 17 20 l) in
         if resname \<in> resname_set then
           (let atom_name = strip (slice 12 16 l);
                names = (case ref resname of None \<Rightarrow> [] | Some ns \<Rightarrow> ns) in
            if atom_name \<notin> set names then
              (let r = learn resname_set (ref(resname \<mapsto> names @ [atom_name])) fhandle
               in r\<lparr>yielded := l # yielded r\<rparr>)
            else
              \<lparr>yielded = [], ref_atom_order = ref(resname \<mapsto> names),
               buffer_line = Some l, remaining = fhandle\<rparr>)
         else learn resname_set ref fhandle)
      else
        (let r = learn resname_set ref fhandle in r\<lparr>yielded := l # yielded r\<rparr>))"

section \<open>Phase 2: bucketing the rest of the input\<close>

text \<open>
  \<^verbatim>\<open>residue_lines\<close> is a dictionary iterated with \<^verbatim>\<open>.items()\<close>, so its insertion
  order matters (a dictionary of Python 3.7 and later iterates in insertion order): it
  is an association list, a new key going to the end.
  \<^verbatim>\<open>if resid not in residue_lines: residue_lines[resid] = []\<close> followed by
  \<^verbatim>\<open>residue_lines[resid].append(line)\<close> is \<open>append_to\<close>.
\<close>

type_synonym buckets = "(string \<times> line list) list"

fun append_to :: "string \<Rightarrow> line \<Rightarrow> buckets \<Rightarrow> buckets" where
  "append_to resid l [] = [(resid, [l])]"
| "append_to resid l ((k, ls) # bs) =
     (if k = resid then (k, ls @ [l]) # bs else (k, ls) # append_to resid l bs)"

record collected =
  residue_lines :: buckets
  not_residues_lines :: "line list"

text \<open>The block under \<^verbatim>\<open>if buffer_line:\<close> (source lines 161 to 169).\<close>

definition hold_buffer :: "string set \<Rightarrow> line option \<Rightarrow> collected \<Rightarrow> collected" where
  "hold_buffer resname_set buf st =
     (case buf of
        None \<Rightarrow> st
      | Some l \<Rightarrow>
          if l = [] then st
          else if startswith l records then
            (let resname = strip (slice 17 20 l);
                 resid = strip (slice 22 26 l) in
             if resname \<in> resname_set then
               st\<lparr>residue_lines := append_to resid l (residue_lines st)\<rparr>
             else st)
          else st)"

text \<open>The body of the second loop (source lines 172 to 185).\<close>

definition collect :: "string set \<Rightarrow> collected \<Rightarrow> line \<Rightarrow> collected" where
  "collect resname_set st l =
     (if startswith l records then
        (let resname = strip (slice 17 20 l);
             resid = strip (slice 22 26 l) in
         if resname \<in> resname_set then
           st\<lparr>residue_lines := append_to resid l (residue_lines st)\<rparr>
         else st\<lparr>not_residues_lines := not_residues_lines st @ [l]\<rparr>)
      else st\<lparr>not_residues_lines := not_residues_lines st @ [l]\<rparr>)"

section \<open>Replay: reordering and yielding the buckets\<close>

text \<open>
  The body of the loop over \<^verbatim>\<open>residue_lines.items()\<close> (source lines 188 to 201).
  \<^verbatim>\<open>lines[0]\<close> raises \<^verbatim>\<open>IndexError\<close> on an empty list.
\<close>

datatype py_error = IndexError

definition reorder :: "(string \<rightharpoonup> string list) \<Rightarrow> line list \<Rightarrow> py_error + line list" where
  "reorder ref lines =
     (case lines of
        [] \<Rightarrow> Inl IndexError
      | first # _ \<Rightarrow>
          (let resname = strip (slice 17 20 first) in
           case ref resname of
             Some atom_order \<Rightarrow>
               Inr (concat (map (\<lambda>atom_name.
                      filter (\<lambda>line. strip (slice 12 16 line) = atom_name) lines) atom_order))
           | None \<Rightarrow> Inr lines))"

fun replay :: "(string \<rightharpoonup> string list) \<Rightarrow> buckets \<Rightarrow> py_error + line list" where
  "replay ref [] = Inr []"
| "replay ref ((resid, lines) # bs) =
     (case reorder ref lines of
        Inl e \<Rightarrow> Inl e
      | Inr out \<Rightarrow>
          (case replay ref bs of
             Inl e \<Rightarrow> Inl e
           | Inr outs \<Rightarrow> Inr (out @ outs)))"

section \<open>The generator \<^verbatim>\<open>run\<close>\<close>

text \<open>
  \<open>phase1\<close> is the state when the first loop ends, \<open>phase2\<close> the state when the second
  loop ends, and \<open>run\<close> the sequence of all lines the generator yields, or the
  exception it raises.
\<close>

definition phase1 :: "line list \<Rightarrow> string set \<Rightarrow> learned" where
  "phase1 fhandle resname_set = learn resname_set Map.empty fhandle"

definition phase2 :: "line list \<Rightarrow> string set \<Rightarrow> collected" where
  "phase2 fhandle resname_set =
     (let p1 = phase1 fhandle resname_set;
          st = hold_buffer resname_set (buffer_line p1)
                 \<lparr>residue_lines = [], not_residues_lines = []\<rparr>
      in foldl (collect resname_set) st (remaining p1))"

text \<open>
  What the second part of \<^verbatim>\<open>run\<close> reads: \<^verbatim>\<open>buffer_line\<close>, when the first loop
  broke, and then the rest of the iterator. The keys of a dictionary in the order of
  their first insertion are the first occurrences of the keys inserted.
\<close>

abbreviation phase2_input :: "learned \<Rightarrow> line list" where
  "phase2_input p1 \<equiv> (case buffer_line p1 of None \<Rightarrow> [] | Some b \<Rightarrow> [b]) @ remaining p1"

abbreviation first_seen :: "'a list \<Rightarrow> 'a list" where
  "first_seen xs \<equiv> rev (remdups (rev xs))"

definition run :: "line list \<Rightarrow> string set \<Rightarrow> py_error + line list" where
  "run fhandle resname_set =
     (let p1 = phase1 fhandle resname_set;
          st = phase2 fhandle resname_set
      in case replay (ref_atom_order p1) (residue_lines st) of
           Inl e \<Rightarrow> Inl e
         | Inr out \<Rightarrow> Inr (yielded p1 @ out @ not_residues_lines st))"

section \<open>The kinds of \<^verbatim>\<open>fhandle\<close>\<close>

text \<open>
  The docstring of \<^verbatim>\<open>run\<close> takes any iterable for \<^verbatim>\<open>fhandle\<close>, and each of the two
  \<^verbatim>\<open>for line in fhandle\<close> loops asks it for an iterator. A one-shot iterator (a file
  object as \<^verbatim>\<open>main\<close> passes, a generator) gives itself, so the second loop goes on
  after the line on which the first loop stopped: that is \<open>phase2\<close> and \<open>run\<close> above. A
  re-iterable sequence (a list, a tuple) gives a fresh iterator each time, so the second
  loop starts again at the first line, whatever the first loop has read. \<open>phase2_of\<close> and
  \<open>run_of\<close> are the second loop and the generator for either kind of \<^verbatim>\<open>fhandle\<close>.
\<close>

datatype fhandle = Iterator "line list" | Sequence "line list"

fun lines_of :: "fhandle \<Rightarrow> line list" where
  "lines_of (Iterator ls) = ls"
| "lines_of (Sequence ls) = ls"

fun second_loop_lines :: "fhandle \<Rightarrow> learned \<Rightarrow> line list" where
  "second_loop_lines (Iterator ls) p1 = remaining p1"
| "second_loop_lines (Sequence ls) p1 = ls"

definition phase2_of :: "fhandle \<Rightarrow> string set \<Rightarrow> collected" where
  "phase2_of fhandle resname_set =
     (let p1 = phase1 (lines_of fhandle) resname_set;
          st = hold_buffer resname_set (buffer_line p1)
                 \<lparr>residue_lines = [], not_residues_lines = []\<rparr>
      in foldl (collect resname_set) st (second_loop_lines fhandle p1))"

definition run_of :: "fhandle \<Rightarrow> string set \<Rightarrow> py_error + line list" where
  "run_of fhandle resname_set =
     (let p1 = phase1 (lines_of fhandle) resname_set;
          st = phase2_of fhandle resname_set
      in case replay (ref_atom_order p1) (residue_lines st) of
           Inl e \<Rightarrow> Inl e
         | Inr out \<Rightarrow> Inr (yielded p1 @ out @ not_residues_lines st))"

section \<open>What phase 1 leaves behind\<close>

text \<open>
  The four ways one line goes through the first loop: a line that is not a record is
  yielded; a record line of another residue is passed over; a matching line with a new
  atom name is recorded and yielded; a matching line whose atom name is already recorded
  ends the loop and becomes \<^verbatim>\<open>buffer_line\<close>.
\<close>

lemma learn_pass:
  "\<not> startswith l records \<Longrightarrow>
   learn S ref (l # ls) = (learn S ref ls)\<lparr>yielded := l # yielded (learn S ref ls)\<rparr>"
  by (simp add: Let_def)

lemma learn_drop:
  "startswith l records \<Longrightarrow> resname_of l \<notin> S \<Longrightarrow> learn S ref (l # ls) = learn S ref ls"
  by simp

lemma learn_new:
  "matching S l \<Longrightarrow> names = (case ref (resname_of l) of None \<Rightarrow> [] | Some ns \<Rightarrow> ns) \<Longrightarrow>
   atom_name_of l \<notin> set names \<Longrightarrow> ref' = ref(resname_of l \<mapsto> names @ [atom_name_of l]) \<Longrightarrow>
   learn S ref (l # ls) = (learn S ref' ls)\<lparr>yielded := l # yielded (learn S ref' ls)\<rparr>"
  by (cases "ref (resname_of l)") (simp_all add: Let_def)

lemma learn_break:
  "matching S l \<Longrightarrow> names = (case ref (resname_of l) of None \<Rightarrow> [] | Some ns \<Rightarrow> ns) \<Longrightarrow>
   atom_name_of l \<in> set names \<Longrightarrow>
   learn S ref (l # ls) =
     \<lparr>yielded = [], ref_atom_order = ref(resname_of l \<mapsto> names),
      buffer_line = Some l, remaining = ls\<rparr>"
  by (cases "ref (resname_of l)") (simp_all add: Let_def)

declare learn.simps(2) [simp del]

lemma learn_cases [case_names pass drop new break]:
  assumes "\<not> startswith l records \<Longrightarrow> P"
    and "startswith l records \<Longrightarrow> resname_of l \<notin> S \<Longrightarrow> P"
    and "\<And>names. matching S l \<Longrightarrow> names = (case ref (resname_of l) of None \<Rightarrow> [] | Some ns \<Rightarrow> ns) \<Longrightarrow>
           atom_name_of l \<notin> set names \<Longrightarrow> P"
    and "\<And>names. matching S l \<Longrightarrow> names = (case ref (resname_of l) of None \<Rightarrow> [] | Some ns \<Rightarrow> ns) \<Longrightarrow>
           atom_name_of l \<in> set names \<Longrightarrow> P"
  shows P
  using assms by blast

lemma learn_buffer_None:
  "buffer_line (learn S ref ls) = None \<Longrightarrow> remaining (learn S ref ls) = []"
proof (induction ls arbitrary: ref)
  case Nil
  show ?case by simp
next
  case (Cons l ls)
  show ?case
  proof (cases rule: learn_cases [where l = l and S = S and ref = ref])
    case pass
    with Cons show ?thesis by (simp add: learn_pass)
  next
    case drop
    with Cons show ?thesis by (simp add: learn_drop)
  next
    case (new names)
    with Cons show ?thesis by (simp add: learn_new [where ref = ref, OF new refl])
  next
    case (break names)
    with Cons.prems show ?thesis by (simp add: learn_break [where ref = ref, OF break])
  qed
qed

lemma learn_buffer_Some:
  "buffer_line (learn S ref ls) = Some b \<Longrightarrow> matching S b"
proof (induction ls arbitrary: ref)
  case Nil
  then show ?case by simp
next
  case (Cons l ls)
  show ?case
  proof (cases rule: learn_cases [where l = l and S = S and ref = ref])
    case pass
    with Cons show ?thesis by (simp add: learn_pass)
  next
    case drop
    with Cons show ?thesis by (simp add: learn_drop)
  next
    case (new names)
    with Cons show ?thesis by (simp add: learn_new [where ref = ref, OF new refl])
  next
    case (break names)
    with Cons.prems show ?thesis by (simp add: learn_break [where ref = ref, OF break])
  qed
qed

lemma learn_split:
  "\<exists>pre. ls = pre @ phase2_input (learn S ref ls) \<and>
         yielded (learn S ref ls) = filter (\<lambda>l. startswith l records \<longrightarrow> resname_of l \<in> S) pre"
  (is "\<exists>pre. ?Q ls ref pre")
proof (induction ls arbitrary: ref)
  case Nil
  show ?case by simp
next
  case (Cons l ls)
  show ?case
  proof (cases rule: learn_cases [where l = l and S = S and ref = ref])
    case pass
    from Cons [of ref] obtain pre where "?Q ls ref pre" by blast
    with pass have "?Q (l # ls) ref (l # pre)"
      by (simp add: learn_pass)
    then show ?thesis by blast
  next
    case drop
    from Cons [of ref] obtain pre where "?Q ls ref pre" by blast
    with drop have "?Q (l # ls) ref (l # pre)"
      by (simp add: learn_drop)
    then show ?thesis by blast
  next
    case (new names)
    define ref' where "ref' = ref(resname_of l \<mapsto> names @ [atom_name_of l])"
    from Cons [of ref'] obtain pre where "?Q ls ref' pre" by blast
    with new(1) have "?Q (l # ls) ref (l # pre)"
      by (simp add: learn_new [where ref = ref, OF new ref'_def])
    then show ?thesis by blast
  next
    case (break names)
    have "?Q (l # ls) ref []"
      by (simp add: learn_break [where ref = ref, OF break])
    then show ?thesis by blast
  qed
qed

lemma learn_distinct:
  "(\<And>k ns. ref k = Some ns \<Longrightarrow> distinct ns) \<Longrightarrow>
   ref_atom_order (learn S ref ls) k = Some ns \<Longrightarrow> distinct ns"
proof (induction ls arbitrary: ref)
  case Nil
  then show ?case by simp
next
  case (Cons l ls)
  show ?case
  proof (cases rule: learn_cases [where l = l and S = S and ref = ref])
    case pass
    with Cons.prems(2) have "ref_atom_order (learn S ref ls) k = Some ns"
      by (simp add: learn_pass)
    with Cons.IH [of ref] Cons.prems(1) show ?thesis by blast
  next
    case drop
    with Cons.prems(2) have "ref_atom_order (learn S ref ls) k = Some ns"
      by (simp add: learn_drop)
    with Cons.IH [of ref] Cons.prems(1) show ?thesis by blast
  next
    case (new names)
    define ref' where "ref' = ref(resname_of l \<mapsto> names @ [atom_name_of l])"
    have dn: "distinct names"
      using Cons.prems(1) new(2) by (cases "ref (resname_of l)") auto
    have d': "\<And>k ns. ref' k = Some ns \<Longrightarrow> distinct ns"
      using dn new(3) Cons.prems(1) by (auto simp: ref'_def split: if_splits)
    from Cons.prems(2) have "ref_atom_order (learn S ref' ls) k = Some ns"
      by (simp add: learn_new [where ref = ref, OF new ref'_def])
    with Cons.IH [of ref'] d' show ?thesis by blast
  next
    case (break names)
    have dn: "distinct names"
      using Cons.prems(1) break(2) by (cases "ref (resname_of l)") auto
    from Cons.prems(2) have "(ref(resname_of l \<mapsto> names)) k = Some ns"
      by (simp add: learn_break [where ref = ref, OF break])
    with dn Cons.prems(1) show ?thesis
      by (auto split: if_splits)
  qed
qed

section \<open>What phase 2 collects\<close>

text \<open>
  The second loop sends each line either to a bucket or to \<^verbatim>\<open>not_residues_lines\<close>.
  The buckets it builds are, key by key in the order of first insertion, the matching
  lines with that key, in the order they were read.
\<close>

lemma collect_not_residues:
  "not_residues_lines (foldl (collect S) st ls) =
     not_residues_lines st @ filter (\<lambda>l. \<not> matching S l) ls"
  by (induction ls arbitrary: st) (auto simp: collect_def Let_def)

lemma collect_residues:
  "residue_lines (foldl (collect S) st ls) =
     foldl (\<lambda>bs l. append_to (resid_of l) l bs) (residue_lines st) (filter (matching S) ls)"
  by (induction ls arbitrary: st) (auto simp: collect_def Let_def)

lemma append_to_keyed:
  "distinct ks \<Longrightarrow>
   append_to x l (map (\<lambda>k. (k, g k)) ks) =
     (if x \<in> set ks then map (\<lambda>k. (k, if k = x then g k @ [l] else g k)) ks
      else map (\<lambda>k. (k, g k)) ks @ [(x, [l])])"
  by (induction ks) auto

lemma first_seen_snoc:
  "first_seen (xs @ [x]) = (if x \<in> set xs then first_seen xs else first_seen xs @ [x])"
  by simp

lemma buckets_keyed:
  "foldl (\<lambda>bs l. append_to (key l) l bs) [] ms =
     map (\<lambda>k. (k, filter (\<lambda>l. key l = k) ms)) (first_seen (map key ms))"
proof (induction ms rule: rev_induct)
  case Nil
  show ?case by simp
next
  case (snoc l ms)
  let ?ks = "first_seen (map key ms)"
  have d: "distinct ?ks" by simp
  have s: "set ?ks = key ` set ms" by simp
  show ?case
  proof (cases "key l \<in> key ` set ms")
    case True
    then have "first_seen (map key (ms @ [l])) = ?ks" by simp
    moreover have "append_to (key l) l (map (\<lambda>k. (k, filter (\<lambda>l. key l = k) ms)) ?ks) =
        map (\<lambda>k. (k, filter (\<lambda>l'. key l' = k) (ms @ [l]))) ?ks"
      using True by (subst append_to_keyed [OF d]) (auto simp: s)
    ultimately show ?thesis using snoc by simp
  next
    case False
    then have "first_seen (map key (ms @ [l])) = ?ks @ [key l]" by simp
    moreover have "filter (\<lambda>l'. key l' = key l) ms = []"
      using False by (force simp: filter_empty_conv image_iff)
    moreover have "append_to (key l) l (map (\<lambda>k. (k, filter (\<lambda>l. key l = k) ms)) ?ks) =
        map (\<lambda>k. (k, filter (\<lambda>l'. key l' = k) (ms @ [l]))) ?ks @ [(key l, [l])]"
      using False by (subst append_to_keyed [OF d]) (auto simp: s)
    ultimately show ?thesis using snoc by simp
  qed
qed

lemma hold_buffer_eq:
  "buffer_line p1 = None \<or> (\<exists>b. buffer_line p1 = Some b \<and> matching S b) \<Longrightarrow>
   hold_buffer S (buffer_line p1) \<lparr>residue_lines = [], not_residues_lines = []\<rparr> =
     foldl (collect S) \<lparr>residue_lines = [], not_residues_lines = []\<rparr>
       (case buffer_line p1 of None \<Rightarrow> [] | Some b \<Rightarrow> [b])"
  by (auto simp: hold_buffer_def collect_def Let_def records_def)

lemma phase2_eq:
  "phase2 ls S = foldl (collect S) \<lparr>residue_lines = [], not_residues_lines = []\<rparr>
     (phase2_input (phase1 ls S))"
proof -
  have "buffer_line (phase1 ls S) = None \<or>
      (\<exists>b. buffer_line (phase1 ls S) = Some b \<and> matching S b)"
    using learn_buffer_Some [of S Map.empty ls] by (cases "buffer_line (phase1 ls S)") (auto simp: phase1_def)
  from hold_buffer_eq [OF this] show ?thesis
    by (simp add: phase2_def Let_def)
qed

lemma phase2_not_residues:
  "not_residues_lines (phase2 ls S) = filter (\<lambda>l. \<not> matching S l) (phase2_input (phase1 ls S))"
  by (simp add: phase2_eq collect_not_residues)

lemma phase2_residues:
  "residue_lines (phase2 ls S) =
     map (\<lambda>k. (k, filter (\<lambda>l. matching S l \<and> resid_of l = k) (phase2_input (phase1 ls S))))
       (first_seen (map resid_of (filter (matching S) (phase2_input (phase1 ls S)))))"
proof -
  have "filter (\<lambda>l. resid_of l = k) (filter (matching S) xs) =
      filter (\<lambda>l. matching S l \<and> resid_of l = k) xs" for k xs
    by (induction xs) auto
  then show ?thesis
    by (simp only: phase2_eq collect_residues buckets_keyed collected.simps)
qed

section \<open>What the replay yields\<close>

text \<open>
  No bucket is empty, so \<^verbatim>\<open>lines[0]\<close> never raises; every list of
  \<^verbatim>\<open>ref_atom_order\<close> is free of repetitions; and the output of \<^verbatim>\<open>run\<close> is what
  phase 1 yielded, then the buckets one after the other, then \<^verbatim>\<open>not_residues_lines\<close>.
\<close>

lemma reorder_eq:
  "lines \<noteq> [] \<Longrightarrow>
   reorder ref lines =
     Inr (case ref (resname_of (hd lines)) of
            None \<Rightarrow> lines
          | Some atom_order \<Rightarrow>
              concat (map (\<lambda>a. filter (\<lambda>x. atom_name_of x = a) lines) atom_order))"
  by (cases lines) (auto simp: reorder_def Let_def split: option.splits)

lemma replay_shape:
  "(\<And>k lines. (k, lines) \<in> set bs \<Longrightarrow> lines \<noteq> []) \<Longrightarrow>
   \<exists>outs. replay ref bs = Inr (concat outs) \<and>
          list_all2 (\<lambda>b out. reorder ref (snd b) = Inr out) bs outs"
proof (induction bs)
  case Nil
  show ?case by simp
next
  case (Cons b bs)
  obtain k lines where b: "b = (k, lines)" by (cases b)
  with Cons.prems [of k lines] have "lines \<noteq> []" by simp
  then obtain out where out: "reorder ref lines = Inr out"
    using reorder_eq by blast
  from Cons.IH Cons.prems obtain outs where
    "replay ref bs = Inr (concat outs)"
    "list_all2 (\<lambda>b out. reorder ref (snd b) = Inr out) bs outs"
    by auto
  with b out have "replay ref (b # bs) = Inr (concat (out # outs)) \<and>
      list_all2 (\<lambda>b out. reorder ref (snd b) = Inr out) (b # bs) (out # outs)"
    by simp
  then show ?case by blast
qed

lemma mset_groups:
  "distinct as \<Longrightarrow>
   mset (concat (map (\<lambda>a. filter (\<lambda>x. f x = a) xs) as)) = mset (filter (\<lambda>x. f x \<in> set as) xs)"
proof (induction as)
  case Nil
  show ?case by simp
next
  case (Cons a as)
  then have "a \<notin> set as" by simp
  then have "mset (filter (\<lambda>x. f x = a) xs) + mset (filter (\<lambda>x. f x \<in> set as) xs) =
      mset (filter (\<lambda>x. f x \<in> set (a # as)) xs)"
    by (induction xs) auto
  with Cons show ?case by simp
qed

lemma reorder_mset:
  assumes "\<And>k ns. ref k = Some ns \<Longrightarrow> distinct ns"
    and "reorder ref lines = Inr out"
  shows "mset out \<subseteq># mset lines"
proof (cases "lines = []")
  case True
  with assms(2) show ?thesis by (simp add: reorder_def)
next
  case False
  show ?thesis
  proof (cases "ref (resname_of (hd lines))")
    case None
    with False assms(2) show ?thesis by (simp add: reorder_eq)
  next
    case (Some atom_order)
    with False assms(2) have "out = concat (map (\<lambda>a. filter (\<lambda>x. atom_name_of x = a) lines) atom_order)"
      by (simp add: reorder_eq)
    moreover have "distinct atom_order" using assms(1) Some by blast
    ultimately have "mset out = mset (filter (\<lambda>x. atom_name_of x \<in> set atom_order) lines)"
      by (simp only: mset_groups)
    then show ?thesis by simp
  qed
qed

lemma concat_mset_mono:
  "list_all2 (\<lambda>k out. mset out \<subseteq># mset (g k)) ks outs \<Longrightarrow>
   mset (concat outs) \<subseteq># mset (concat (map g ks))"
  by (induction rule: list_all2_induct) (auto intro: subset_mset.add_mono)

lemma phase1_distinct:
  "ref_atom_order (phase1 ls S) k = Some ns \<Longrightarrow> distinct ns"
  unfolding phase1_def by (rule learn_distinct [of Map.empty]) auto

lemma bucket_nonempty:
  "(k, lines) \<in> set (residue_lines (phase2 ls S)) \<Longrightarrow> lines \<noteq> []"
proof -
  assume "(k, lines) \<in> set (residue_lines (phase2 ls S))"
  then have k: "k \<in> resid_of ` set (filter (matching S) (phase2_input (phase1 ls S)))"
    and l: "lines = filter (\<lambda>l. matching S l \<and> resid_of l = k) (phase2_input (phase1 ls S))"
    by (auto simp: phase2_residues)
  from k obtain x where "x \<in> set (phase2_input (phase1 ls S))" "matching S x" "resid_of x = k"
    by auto
  then have "x \<in> set lines" unfolding l by simp
  then show ?thesis by auto
qed

lemma run_shape:
  "\<exists>outs. run ls S =
       Inr (yielded (phase1 ls S) @ concat outs @
            filter (\<lambda>l. \<not> matching S l) (phase2_input (phase1 ls S))) \<and>
     list_all2 (\<lambda>b out. reorder (ref_atom_order (phase1 ls S)) (snd b) = Inr out)
       (residue_lines (phase2 ls S)) outs"
proof -
  from replay_shape [of "residue_lines (phase2 ls S)" "ref_atom_order (phase1 ls S)"] bucket_nonempty
  obtain outs where
    "replay (ref_atom_order (phase1 ls S)) (residue_lines (phase2 ls S)) = Inr (concat outs)"
    "list_all2 (\<lambda>b out. reorder (ref_atom_order (phase1 ls S)) (snd b) = Inr out)
       (residue_lines (phase2 ls S)) outs"
    by blast
  then show ?thesis
    by (intro exI [of _ outs]) (simp add: run_def Let_def phase2_not_residues)
qed

lemma filter_first_seen:
  "filter (\<lambda>x. f x \<in> set (first_seen (map f ms))) ms = ms"
  by (rule filter_True) simp

lemma buckets_mset:
  "mset (concat (map snd (residue_lines (phase2 ls S)))) =
     mset (filter (matching S) (phase2_input (phase1 ls S)))"
proof -
  let ?ms = "filter (matching S) (phase2_input (phase1 ls S))"
  let ?ks = "first_seen (map resid_of ?ms)"
  have "residue_lines (phase2 ls S) = map (\<lambda>k. (k, filter (\<lambda>l. resid_of l = k) ?ms)) ?ks"
    by (simp only: phase2_eq collect_residues buckets_keyed collected.simps)
  then have "map snd (residue_lines (phase2 ls S)) = map (\<lambda>k. filter (\<lambda>l. resid_of l = k) ?ms) ?ks"
    by (simp add: comp_def)
  moreover have "distinct ?ks" by simp
  ultimately have "mset (concat (map snd (residue_lines (phase2 ls S)))) =
      mset (filter (\<lambda>x. resid_of x \<in> set ?ks) ?ms)"
    by (simp only: mset_groups)
  then show ?thesis
    by (simp only: filter_first_seen)
qed

lemma bucket_lines:
  "(k, lines) \<in> set (residue_lines (phase2 ls S)) \<Longrightarrow>
   lines = filter (\<lambda>l. matching S l \<and> resid_of l = k) (phase2_input (phase1 ls S))"
  by (auto simp: phase2_residues)

lemma keyed_member:
  "x \<in> set xs \<Longrightarrow> P x \<Longrightarrow>
   (f x, filter (\<lambda>y. P y \<and> f y = f x) xs)
     \<in> set (map (\<lambda>k. (k, filter (\<lambda>y. P y \<and> f y = k) xs)) (first_seen (map f (filter P xs))))"
  by auto

lemma member_nonempty: "x \<in> set xs \<Longrightarrow> xs \<noteq> []"
  by auto

lemma bucket_of_line:
  assumes "l \<in> set (phase2_input (phase1 ls S))" and "matching S l"
  shows "(resid_of l, filter (\<lambda>x. matching S x \<and> resid_of x = resid_of l)
            (phase2_input (phase1 ls S))) \<in> set (residue_lines (phase2 ls S))"
  unfolding phase2_residues using assms by (rule keyed_member)

lemma concat_segment:
  "list_all2 P bs outs \<Longrightarrow> b \<in> set bs \<Longrightarrow>
   \<exists>out pre post. P b out \<and> concat outs = pre @ out @ post"
proof (induction rule: list_all2_induct)
  case Nil
  then show ?case by simp
next
  case (Cons x xs y ys)
  show ?case
  proof (cases "b = x")
    case True
    with Cons.hyps(1) have "P b y \<and> concat (y # ys) = [] @ y @ concat ys" by simp
    then show ?thesis by blast
  next
    case False
    with Cons obtain out pre post where "P b out" "concat ys = pre @ out @ post" by auto
    then have "P b out \<and> concat (y # ys) = (y @ pre) @ out @ post" by simp
    then show ?thesis by blast
  qed
qed

lemma run_segment:
  assumes "(k, lines) \<in> set (residue_lines (phase2 ls S))"
  shows "\<exists>out pre post. reorder (ref_atom_order (phase1 ls S)) lines = Inr out \<and>
           run ls S = Inr (pre @ out @ post)"
proof -
  from run_shape [of ls S] obtain outs where
    run: "run ls S = Inr (yielded (phase1 ls S) @ concat outs @
            filter (\<lambda>l. \<not> matching S l) (phase2_input (phase1 ls S)))"
    and outs: "list_all2 (\<lambda>b out. reorder (ref_atom_order (phase1 ls S)) (snd b) = Inr out)
                 (residue_lines (phase2 ls S)) outs"
    by blast
  from concat_segment [OF outs assms] obtain out pre post where
    "reorder (ref_atom_order (phase1 ls S)) lines = Inr out" "concat outs = pre @ out @ post"
    by auto
  with run have "reorder (ref_atom_order (phase1 ls S)) lines = Inr out \<and>
      run ls S = Inr ((yielded (phase1 ls S) @ pre) @ out @
        (post @ filter (\<lambda>l. \<not> matching S l) (phase2_input (phase1 ls S))))"
    by simp
  then show ?thesis by blast
qed

lemma map_filter_key:
  "map f (filter (\<lambda>x. f x = a) xs) = replicate (length (filter (\<lambda>x. f x = a) xs)) a"
  by (induction xs) auto

lemma names_of_groups:
  "map f (concat (map (\<lambda>a. filter (\<lambda>x. f x = a) xs) as)) =
     concat (map (\<lambda>a. replicate (length (filter (\<lambda>x. f x = a) xs)) a) as)"
  by (induction as) (auto simp: map_filter_key)

lemma group_of_groups:
  "distinct as \<Longrightarrow>
   filter (\<lambda>x. f x = b) (concat (map (\<lambda>a. filter (\<lambda>x. f x = a) xs) as)) =
     (if b \<in> set as then filter (\<lambda>x. f x = b) xs else [])"
proof (induction as)
  case Nil
  show ?case by simp
next
  case (Cons a as)
  have "filter (\<lambda>x. f x = b) (filter (\<lambda>x. f x = a) xs) =
      (if a = b then filter (\<lambda>x. f x = b) xs else [])"
    by (induction xs) auto
  with Cons show ?case by auto
qed

lemma filter_not_record:
  "filter (\<lambda>l. \<not> startswith l records) (filter (\<lambda>l. \<not> matching S l) xs) =
     filter (\<lambda>l. \<not> startswith l records) xs"
  by (induction xs) auto

lemma phase2_of_Iterator: "phase2_of (Iterator ls) S = phase2 ls S"
  by (simp add: phase2_of_def phase2_def)

lemma run_of_Iterator: "run_of (Iterator ls) S = run ls S"
  by (simp add: run_of_def run_def phase2_of_Iterator)

section \<open>The claims of the specification\<close>

text \<open>
  Claim C1 fails on the code. \<^verbatim>\<open>run\<close> loses lines in two places: a record line
  of a residue outside the set read during phase 1 (the \<^verbatim>\<open>GLY\<close> line below), and
  a bucket line whose atom name is not in the learned order (the \<^verbatim>\<open>CB\<close> line below).
  Of six input lines four are yielded.
\<close>

theorem run_loses_lines:
  "run [''REMARK x'',
        ''ATOM      1  N   GLY A   1'',
        ''ATOM      2  N   ALA A   2'',
        ''ATOM      3  N   ALA A   3'',
        ''ATOM      4  CB  ALA A   3'',
        ''END''] {''ALA''}
   = Inr [''REMARK x'',
          ''ATOM      2  N   ALA A   2'',
          ''ATOM      3  N   ALA A   3'',
          ''END'']"
  by code_simp

text \<open>
  Claim C2 fails on the code. In phase 1 a record line of a residue outside the set is
  not yielded: the loop goes on (the \<^verbatim>\<open>ALA\<close> line after it is learned and yielded, and
  the loop ends without a break), and the \<^verbatim>\<open>GLY\<close> line is nowhere in the output.
\<close>

theorem phase1_passes_over_other_residues:
  "yielded (phase1 [''ATOM      1  N   GLY A   1'',
                    ''ATOM      2  N   ALA A   2''] {''ALA''})
     = [''ATOM      2  N   ALA A   2''] \<and>
   buffer_line (phase1 [''ATOM      1  N   GLY A   1'',
                        ''ATOM      2  N   ALA A   2''] {''ALA''}) = None \<and>
   run [''ATOM      1  N   GLY A   1'',
        ''ATOM      2  N   ALA A   2''] {''ALA''}
     = Inr [''ATOM      2  N   ALA A   2'']"
  by code_simp

text \<open>
  Claim C3 fails on the code. On an input with no line of a residue of the set, \<^verbatim>\<open>run\<close>
  yields the lines that are not records and none of the record lines.
\<close>

theorem run_without_match_keeps_no_record:
  "run [''HEADER'',
        ''ATOM      1  N   GLY A   1'',
        ''HETATM    2  O   HOH A   2'',
        ''END''] {''ALA''}
   = Inr [''HEADER'', ''END'']"
  by code_simp

text \<open>
  Claim C4 fails as it is written. The two lines below have different contents in columns
  [22,26), \<^verbatim>\<open>'   3'\<close> and \<^verbatim>\<open>'  3 '\<close>, and are in the same bucket, whose key is
  \<^verbatim>\<open>'3'\<close>.
\<close>

theorem raw_resid_differs_same_bucket:
  "slice 22 26 ''ATOM      3  N   ALA A   3'' \<noteq> slice 22 26 ''ATOM      4  CA  ALA A  3 '' \<and>
   residue_lines (phase2 [''ATOM      2  N   ALA A   2'',
                          ''ATOM      3  N   ALA A   3'',
                          ''ATOM      4  CA  ALA A  3 ''] {''ALA''})
     = [(''3'', [''ATOM      3  N   ALA A   3'', ''ATOM      4  CA  ALA A  3 ''])]"
  by code_simp

text \<open>
  Claim C4, as the code has it. Two matching lines of the phase-2 input are in the same
  bucket if and only if their residue-sequence-id fields are equal after
  \<^verbatim>\<open>strip()\<close>: the key is \<^verbatim>\<open>line[22:26].strip()\<close>, a string that is never parsed as a
  number.
\<close>

theorem same_bucket_iff_same_stripped_resid:
  assumes "l \<in> set (phase2_input (phase1 ls S))" and "l' \<in> set (phase2_input (phase1 ls S))"
    and "matching S l" and "matching S l'"
  shows "(\<exists>k lines. (k, lines) \<in> set (residue_lines (phase2 ls S)) \<and>
            l \<in> set lines \<and> l' \<in> set lines) \<longleftrightarrow>
         strip (slice 22 26 l) = strip (slice 22 26 l')"
proof
  assume "\<exists>k lines. (k, lines) \<in> set (residue_lines (phase2 ls S)) \<and>
      l \<in> set lines \<and> l' \<in> set lines"
  then obtain k lines where "(k, lines) \<in> set (residue_lines (phase2 ls S))"
    "l \<in> set lines" "l' \<in> set lines" by blast
  with bucket_lines [of k lines ls S] show "resid_of l = resid_of l'" by auto
next
  assume e: "resid_of l = resid_of l'"
  let ?lines = "filter (\<lambda>x. matching S x \<and> resid_of x = resid_of l) (phase2_input (phase1 ls S))"
  have "(resid_of l, ?lines) \<in> set (residue_lines (phase2 ls S))"
    using assms(1,3) by (rule bucket_of_line)
  moreover have "l \<in> set ?lines" using assms(1,3) by simp
  moreover have "l' \<in> set ?lines" using assms(2,4) e by simp
  ultimately show "\<exists>k lines. (k, lines) \<in> set (residue_lines (phase2 ls S)) \<and>
      l \<in> set lines \<and> l' \<in> set lines" by blast
qed

text \<open>
  The hypotheses hold for the two lines of the counterexample: their
  stripped fields are equal and one bucket holds both.
\<close>

theorem same_bucket_iff_same_stripped_resid_witness:
  "''ATOM      3  N   ALA A   3''
     \<in> set (phase2_input (phase1 [''ATOM      2  N   ALA A   2'',
                                    ''ATOM      3  N   ALA A   3'',
                                    ''ATOM      4  CA  ALA A  3 ''] {''ALA''})) \<and>
   ''ATOM      4  CA  ALA A  3 ''
     \<in> set (phase2_input (phase1 [''ATOM      2  N   ALA A   2'',
                                    ''ATOM      3  N   ALA A   3'',
                                    ''ATOM      4  CA  ALA A  3 ''] {''ALA''})) \<and>
   matching {''ALA''} ''ATOM      3  N   ALA A   3'' \<and>
   matching {''ALA''} ''ATOM      4  CA  ALA A  3 '' \<and>
   strip (slice 22 26 ''ATOM      3  N   ALA A   3'') =
     strip (slice 22 26 ''ATOM      4  CA  ALA A  3 '') \<and>
   (\<exists>k lines.
      (k, lines) \<in> set (residue_lines (phase2 [''ATOM      2  N   ALA A   2'',
                                                 ''ATOM      3  N   ALA A   3'',
                                                 ''ATOM      4  CA  ALA A  3 ''] {''ALA''})) \<and>
      ''ATOM      3  N   ALA A   3'' \<in> set lines \<and>
      ''ATOM      4  CA  ALA A  3 '' \<in> set lines)"
proof -
  let ?inp = "[''ATOM      2  N   ALA A   2'', ''ATOM      3  N   ALA A   3'',
               ''ATOM      4  CA  ALA A  3 '']"
  have h1: "''ATOM      3  N   ALA A   3'' \<in> set (phase2_input (phase1 ?inp {''ALA''}))"
    by code_simp
  have h2: "''ATOM      4  CA  ALA A  3 '' \<in> set (phase2_input (phase1 ?inp {''ALA''}))"
    by code_simp
  have h3: "matching {''ALA''} ''ATOM      3  N   ALA A   3''"
    by code_simp
  have h4: "matching {''ALA''} ''ATOM      4  CA  ALA A  3 ''"
    by code_simp
  have h5: "strip (slice 22 26 ''ATOM      3  N   ALA A   3'') =
      strip (slice 22 26 ''ATOM      4  CA  ALA A  3 '')"
    by code_simp
  from same_bucket_iff_same_stripped_resid [OF h1 h2 h3 h4] h5
  have "\<exists>k lines. (k, lines) \<in> set (residue_lines (phase2 ?inp {''ALA''})) \<and>
      ''ATOM      3  N   ALA A   3'' \<in> set lines \<and> ''ATOM      4  CA  ALA A  3 '' \<in> set lines"
    by (rule iffD2)
  with h1 h2 h3 h4 h5 show ?thesis by blast
qed

text \<open>
  Claim C5. A bucket holds the matching lines of the phase-2 input with its key, in the
  order they were read. When its first line has a residue name with a learned reference
  order, it is yielded grouped by atom name: the atom names of the lines yielded are the
  first name of the order as often as the bucket has it, then the second, and so on; and
  the lines yielded for each name of the order are the bucket's lines of that name, in
  the order the bucket holds them (no line is yielded for any other name). The lines
  yielded for the bucket stand together in the output of \<^verbatim>\<open>run\<close>.
\<close>

theorem bucket_grouped_in_learned_order:
  assumes "(k, lines) \<in> set (residue_lines (phase2 ls S))"
    and "ref_atom_order (phase1 ls S) (resname_of (hd lines)) = Some atom_order"
  shows "\<exists>out pre post.
      lines = filter (\<lambda>l. matching S l \<and> resid_of l = k) (phase2_input (phase1 ls S)) \<and>
      reorder (ref_atom_order (phase1 ls S)) lines = Inr out \<and>
      run ls S = Inr (pre @ out @ post) \<and>
      map atom_name_of out =
        concat (map (\<lambda>a. replicate (length (filter (\<lambda>l. atom_name_of l = a) lines)) a)
          atom_order) \<and>
      (\<forall>a. filter (\<lambda>l. atom_name_of l = a) out =
        (if a \<in> set atom_order then filter (\<lambda>l. atom_name_of l = a) lines else []))"
proof -
  from run_segment [OF assms(1)] obtain out pre post where
    out: "reorder (ref_atom_order (phase1 ls S)) lines = Inr out"
    and run: "run ls S = Inr (pre @ out @ post)"
    by blast
  from assms(1) have "lines \<noteq> []" by (rule bucket_nonempty)
  with out assms(2) have eq:
    "out = concat (map (\<lambda>a. filter (\<lambda>x. atom_name_of x = a) lines) atom_order)"
    by (simp add: reorder_eq)
  have d: "distinct atom_order" using assms(2) by (rule phase1_distinct)
  have "map atom_name_of out =
      concat (map (\<lambda>a. replicate (length (filter (\<lambda>l. atom_name_of l = a) lines)) a) atom_order)"
    unfolding eq by (rule names_of_groups)
  moreover have "\<forall>a. filter (\<lambda>l. atom_name_of l = a) out =
      (if a \<in> set atom_order then filter (\<lambda>l. atom_name_of l = a) lines else [])"
    unfolding eq by (intro allI) (rule group_of_groups [OF d])
  ultimately show ?thesis using out run bucket_lines [OF assms(1)] by blast
qed

text \<open>
  The hypotheses hold on an input whose second \<^verbatim>\<open>ALA\<close> residue has its atoms in
  the order \<^verbatim>\<open>CA\<close>, \<^verbatim>\<open>N\<close>: its bucket is yielded in the learned order \<^verbatim>\<open>N\<close>, \<^verbatim>\<open>CA\<close>.
\<close>

theorem bucket_grouped_in_learned_order_witness:
  "(''2'', [''ATOM      3  CA  ALA A   2'', ''ATOM      4  N   ALA A   2''])
     \<in> set (residue_lines (phase2
          [''ATOM      1  N   ALA A   1'', ''ATOM      2  CA  ALA A   1'',
           ''ATOM      3  CA  ALA A   2'', ''ATOM      4  N   ALA A   2''] {''ALA''})) \<and>
   ref_atom_order (phase1
          [''ATOM      1  N   ALA A   1'', ''ATOM      2  CA  ALA A   1'',
           ''ATOM      3  CA  ALA A   2'', ''ATOM      4  N   ALA A   2''] {''ALA''})
       (resname_of (hd [''ATOM      3  CA  ALA A   2'', ''ATOM      4  N   ALA A   2'']))
     = Some [''N'', ''CA''] \<and>
   run [''ATOM      1  N   ALA A   1'', ''ATOM      2  CA  ALA A   1'',
        ''ATOM      3  CA  ALA A   2'', ''ATOM      4  N   ALA A   2''] {''ALA''}
     = Inr [''ATOM      1  N   ALA A   1'', ''ATOM      2  CA  ALA A   1'',
            ''ATOM      4  N   ALA A   2'', ''ATOM      3  CA  ALA A   2''] \<and>
   (\<exists>out pre post.
      reorder (ref_atom_order (phase1
          [''ATOM      1  N   ALA A   1'', ''ATOM      2  CA  ALA A   1'',
           ''ATOM      3  CA  ALA A   2'', ''ATOM      4  N   ALA A   2''] {''ALA''}))
        [''ATOM      3  CA  ALA A   2'', ''ATOM      4  N   ALA A   2''] = Inr out \<and>
      run [''ATOM      1  N   ALA A   1'', ''ATOM      2  CA  ALA A   1'',
           ''ATOM      3  CA  ALA A   2'', ''ATOM      4  N   ALA A   2''] {''ALA''}
        = Inr (pre @ out @ post) \<and>
      map atom_name_of out = [''N'', ''CA''])"
proof -
  let ?inp = "[''ATOM      1  N   ALA A   1'', ''ATOM      2  CA  ALA A   1'',
               ''ATOM      3  CA  ALA A   2'', ''ATOM      4  N   ALA A   2'']"
  let ?lines = "[''ATOM      3  CA  ALA A   2'', ''ATOM      4  N   ALA A   2'']"
  have h1: "(''2'', ?lines) \<in> set (residue_lines (phase2 ?inp {''ALA''}))"
    by code_simp
  have h2: "ref_atom_order (phase1 ?inp {''ALA''}) (resname_of (hd ?lines)) = Some [''N'', ''CA'']"
    by code_simp
  have h3: "concat (map (\<lambda>a. replicate (length (filter (\<lambda>l. atom_name_of l = a) ?lines)) a)
      [''N'', ''CA'']) = [''N'', ''CA'']"
    by code_simp
  have h4: "run ?inp {''ALA''}
      = Inr [''ATOM      1  N   ALA A   1'', ''ATOM      2  CA  ALA A   1'',
             ''ATOM      4  N   ALA A   2'', ''ATOM      3  CA  ALA A   2'']"
    by code_simp
  from bucket_grouped_in_learned_order [OF h1 h2] obtain out pre post where
    r: "reorder (ref_atom_order (phase1 ?inp {''ALA''})) ?lines = Inr out"
    and s: "run ?inp {''ALA''} = Inr (pre @ out @ post)"
    and m: "map atom_name_of out =
      concat (map (\<lambda>a. replicate (length (filter (\<lambda>l. atom_name_of l = a) ?lines)) a)
        [''N'', ''CA''])"
    by blast
  from m have m': "map atom_name_of out = [''N'', ''CA'']"
    by (simp only: h3)
  have "\<exists>out pre post.
      reorder (ref_atom_order (phase1 ?inp {''ALA''})) ?lines = Inr out \<and>
      run ?inp {''ALA''} = Inr (pre @ out @ post) \<and>
      map atom_name_of out = [''N'', ''CA'']"
    using r s m' by (intro exI conjI)
  with h1 h2 h4 show ?thesis by (intro conjI)
qed

text \<open>
  Claim C6. The input is some lines consumed by phase 1 followed by the phase-2 input.
  \<^verbatim>\<open>run\<close> yields what phase 1 yielded, then the buckets one after the other in the
  order of \<^verbatim>\<open>residue_lines\<close>, whose keys stand in the order of their first occurrence
  among the matching lines of the phase-2 input, and last \<^verbatim>\<open>not_residues_lines\<close>: the
  lines of the phase-2 input that are not matching record lines, in the order they were
  read. Every line of the phase-2 input that is not a record is among them.
\<close>

theorem buckets_in_creation_order_then_held_lines:
  "\<exists>pre outs.
     ls = pre @ phase2_input (phase1 ls S) \<and>
     run ls S = Inr (yielded (phase1 ls S) @ concat outs @ not_residues_lines (phase2 ls S)) \<and>
     list_all2 (\<lambda>b out. reorder (ref_atom_order (phase1 ls S)) (snd b) = Inr out)
       (residue_lines (phase2 ls S)) outs \<and>
     map fst (residue_lines (phase2 ls S)) =
       first_seen (map resid_of (filter (matching S) (phase2_input (phase1 ls S)))) \<and>
     not_residues_lines (phase2 ls S) =
       filter (\<lambda>l. \<not> matching S l) (phase2_input (phase1 ls S)) \<and>
     filter (\<lambda>l. \<not> startswith l records) (not_residues_lines (phase2 ls S)) =
       filter (\<lambda>l. \<not> startswith l records) (phase2_input (phase1 ls S))"
proof -
  from learn_split [of ls S Map.empty] obtain pre where
    pre: "ls = pre @ phase2_input (phase1 ls S)"
    unfolding phase1_def by blast
  from run_shape [of ls S] obtain outs where
    run: "run ls S = Inr (yielded (phase1 ls S) @ concat outs @
            filter (\<lambda>l. \<not> matching S l) (phase2_input (phase1 ls S)))"
    and outs: "list_all2 (\<lambda>b out. reorder (ref_atom_order (phase1 ls S)) (snd b) = Inr out)
                 (residue_lines (phase2 ls S)) outs"
    by blast
  have held: "not_residues_lines (phase2 ls S) =
      filter (\<lambda>l. \<not> matching S l) (phase2_input (phase1 ls S))"
    by (rule phase2_not_residues)
  have keys: "map fst (residue_lines (phase2 ls S)) =
      first_seen (map resid_of (filter (matching S) (phase2_input (phase1 ls S))))"
    unfolding phase2_residues by (simp add: comp_def)
  have "filter (\<lambda>l. \<not> startswith l records) (not_residues_lines (phase2 ls S)) =
      filter (\<lambda>l. \<not> startswith l records) (phase2_input (phase1 ls S))"
    unfolding held by (rule filter_not_record)
  with pre run outs held keys show ?thesis
    by (intro exI [of _ pre] exI [of _ outs]) simp
qed

text \<open>
  An input whose phase-2 part holds a remark and a water record between the lines
  of the buckets \<^verbatim>\<open>5\<close> and \<^verbatim>\<open>4\<close>: the buckets come in that order and the two held lines
  come after them, before the last line \<^verbatim>\<open>END\<close>.
\<close>

theorem buckets_in_creation_order_then_held_lines_witness:
  "map fst (residue_lines (phase2
       [''ATOM      1  N   ALA A   1'', ''ATOM      2  CA  ALA A   1'',
        ''ATOM      3  CA  ALA A   5'', ''REMARK mid'',
        ''ATOM      4  N   ALA A   4'', ''HETATM    5  O   HOH A   9'',
        ''ATOM      6  N   ALA A   5'', ''END''] {''ALA''})) = [''5'', ''4''] \<and>
   not_residues_lines (phase2
       [''ATOM      1  N   ALA A   1'', ''ATOM      2  CA  ALA A   1'',
        ''ATOM      3  CA  ALA A   5'', ''REMARK mid'',
        ''ATOM      4  N   ALA A   4'', ''HETATM    5  O   HOH A   9'',
        ''ATOM      6  N   ALA A   5'', ''END''] {''ALA''})
     = [''REMARK mid'', ''HETATM    5  O   HOH A   9'', ''END''] \<and>
   run [''ATOM      1  N   ALA A   1'', ''ATOM      2  CA  ALA A   1'',
        ''ATOM      3  CA  ALA A   5'', ''REMARK mid'',
        ''ATOM      4  N   ALA A   4'', ''HETATM    5  O   HOH A   9'',
        ''ATOM      6  N   ALA A   5'', ''END''] {''ALA''}
     = Inr [''ATOM      1  N   ALA A   1'', ''ATOM      2  CA  ALA A   1'',
            ''ATOM      6  N   ALA A   5'', ''ATOM      3  CA  ALA A   5'',
            ''ATOM      4  N   ALA A   4'',
            ''REMARK mid'', ''HETATM    5  O   HOH A   9'', ''END''] \<and>
   (\<exists>outs. run [''ATOM      1  N   ALA A   1'', ''ATOM      2  CA  ALA A   1'',
        ''ATOM      3  CA  ALA A   5'', ''REMARK mid'',
        ''ATOM      4  N   ALA A   4'', ''HETATM    5  O   HOH A   9'',
        ''ATOM      6  N   ALA A   5'', ''END''] {''ALA''}
     = Inr ([''ATOM      1  N   ALA A   1'', ''ATOM      2  CA  ALA A   1''] @ concat outs @
            [''REMARK mid'', ''HETATM    5  O   HOH A   9'', ''END'']))"
proof -
  let ?inp = "[''ATOM      1  N   ALA A   1'', ''ATOM      2  CA  ALA A   1'',
        ''ATOM      3  CA  ALA A   5'', ''REMARK mid'',
        ''ATOM      4  N   ALA A   4'', ''HETATM    5  O   HOH A   9'',
        ''ATOM      6  N   ALA A   5'', ''END'']"
  have h1: "map fst (residue_lines (phase2 ?inp {''ALA''})) = [''5'', ''4'']"
    by code_simp
  have h2: "not_residues_lines (phase2 ?inp {''ALA''})
      = [''REMARK mid'', ''HETATM    5  O   HOH A   9'', ''END'']"
    by code_simp
  have h3: "run ?inp {''ALA''}
      = Inr [''ATOM      1  N   ALA A   1'', ''ATOM      2  CA  ALA A   1'',
            ''ATOM      6  N   ALA A   5'', ''ATOM      3  CA  ALA A   5'',
            ''ATOM      4  N   ALA A   4'',
            ''REMARK mid'', ''HETATM    5  O   HOH A   9'', ''END'']"
    by code_simp
  have h4: "yielded (phase1 ?inp {''ALA''})
      = [''ATOM      1  N   ALA A   1'', ''ATOM      2  CA  ALA A   1'']"
    by code_simp
  from buckets_in_creation_order_then_held_lines [of ?inp "{''ALA''}"]
  obtain outs where "run ?inp {''ALA''} =
      Inr (yielded (phase1 ?inp {''ALA''}) @ concat outs @ not_residues_lines (phase2 ?inp {''ALA''}))"
    by blast
  then have "\<exists>outs. run ?inp {''ALA''} =
      Inr ([''ATOM      1  N   ALA A   1'', ''ATOM      2  CA  ALA A   1''] @ concat outs @
           [''REMARK mid'', ''HETATM    5  O   HOH A   9'', ''END''])"
    unfolding h2 h4 by blast
  with h1 h2 h3 show ?thesis by blast
qed

text \<open>
  Claim C7. A bucket whose first line has a residue name with no entry in the reference
  order is yielded as it is: its lines, which are the matching lines of the phase-2
  input with the bucket's key in the order they were read, stand unchanged and together
  in the output of \<^verbatim>\<open>run\<close>.
\<close>

theorem unlearned_bucket_yielded_unchanged:
  assumes "(k, lines) \<in> set (residue_lines (phase2 ls S))"
    and "ref_atom_order (phase1 ls S) (resname_of (hd lines)) = None"
  shows "reorder (ref_atom_order (phase1 ls S)) lines = Inr lines \<and>
      lines = filter (\<lambda>l. matching S l \<and> resid_of l = k) (phase2_input (phase1 ls S)) \<and>
      (\<exists>pre post. run ls S = Inr (pre @ lines @ post))"
proof -
  from assms(1) have "lines \<noteq> []" by (rule bucket_nonempty)
  with assms(2) have r: "reorder (ref_atom_order (phase1 ls S)) lines = Inr lines"
    by (simp add: reorder_eq)
  from run_segment [OF assms(1)] r have "\<exists>pre post. run ls S = Inr (pre @ lines @ post)"
    by auto
  with r bucket_lines [OF assms(1)] show ?thesis by blast
qed

text \<open>
  The hypotheses hold on an input where phase 1 ends on the second \<^verbatim>\<open>ALA\<close> line,
  before any \<^verbatim>\<open>GLY\<close> line is read: the \<^verbatim>\<open>GLY\<close> bucket is yielded as it was read.
\<close>

theorem unlearned_bucket_yielded_unchanged_witness:
  "(''3'', [''ATOM      3  O   GLY A   3'', ''ATOM      4  N   GLY A   3''])
     \<in> set (residue_lines (phase2
          [''ATOM      1  N   ALA A   1'', ''ATOM      2  N   ALA A   2'',
           ''ATOM      3  O   GLY A   3'', ''ATOM      4  N   GLY A   3''] {''ALA'', ''GLY''})) \<and>
   ref_atom_order (phase1
          [''ATOM      1  N   ALA A   1'', ''ATOM      2  N   ALA A   2'',
           ''ATOM      3  O   GLY A   3'', ''ATOM      4  N   GLY A   3''] {''ALA'', ''GLY''})
       (resname_of (hd [''ATOM      3  O   GLY A   3'', ''ATOM      4  N   GLY A   3''])) = None \<and>
   reorder (ref_atom_order (phase1
          [''ATOM      1  N   ALA A   1'', ''ATOM      2  N   ALA A   2'',
           ''ATOM      3  O   GLY A   3'', ''ATOM      4  N   GLY A   3''] {''ALA'', ''GLY''}))
       [''ATOM      3  O   GLY A   3'', ''ATOM      4  N   GLY A   3'']
     = Inr [''ATOM      3  O   GLY A   3'', ''ATOM      4  N   GLY A   3''] \<and>
   run [''ATOM      1  N   ALA A   1'', ''ATOM      2  N   ALA A   2'',
        ''ATOM      3  O   GLY A   3'', ''ATOM      4  N   GLY A   3''] {''ALA'', ''GLY''}
     = Inr [''ATOM      1  N   ALA A   1'', ''ATOM      2  N   ALA A   2'',
            ''ATOM      3  O   GLY A   3'', ''ATOM      4  N   GLY A   3'']"
proof -
  let ?inp = "[''ATOM      1  N   ALA A   1'', ''ATOM      2  N   ALA A   2'',
               ''ATOM      3  O   GLY A   3'', ''ATOM      4  N   GLY A   3'']"
  let ?lines = "[''ATOM      3  O   GLY A   3'', ''ATOM      4  N   GLY A   3'']"
  have h1: "(''3'', ?lines) \<in> set (residue_lines (phase2 ?inp {''ALA'', ''GLY''}))"
    by code_simp
  have h2: "ref_atom_order (phase1 ?inp {''ALA'', ''GLY''}) (resname_of (hd ?lines)) = None"
    by code_simp
  have h3: "run ?inp {''ALA'', ''GLY''} = Inr ?inp"
    by code_simp
  from unlearned_bucket_yielded_unchanged [OF h1 h2]
  have "reorder (ref_atom_order (phase1 ?inp {''ALA'', ''GLY''})) ?lines = Inr ?lines"
    by (rule conjunct1)
  with h1 h2 h3 show ?thesis by (intro conjI)
qed

text \<open>
  Claim C8. Two matching lines of the phase-2 input with different residue names and the
  same residue-sequence-id key are in one bucket and in no other, and the bucket is
  reordered by the reference order of the residue name of its first line (left as it is
  when that name has none).
\<close>

theorem shared_resid_merged_into_one_bucket:
  assumes "l \<in> set (phase2_input (phase1 ls S))" and "l' \<in> set (phase2_input (phase1 ls S))"
    and "matching S l" and "matching S l'"
    and "resname_of l \<noteq> resname_of l'"
    and "resid_of l = resid_of l'"
  shows "\<exists>lines.
      (resid_of l, lines) \<in> set (residue_lines (phase2 ls S)) \<and>
      l \<in> set lines \<and> l' \<in> set lines \<and>
      (\<forall>k' lines'. (k', lines') \<in> set (residue_lines (phase2 ls S)) \<and>
          (l \<in> set lines' \<or> l' \<in> set lines') \<longrightarrow> k' = resid_of l \<and> lines' = lines) \<and>
      reorder (ref_atom_order (phase1 ls S)) lines =
        Inr (case ref_atom_order (phase1 ls S) (resname_of (hd lines)) of
               None \<Rightarrow> lines
             | Some atom_order \<Rightarrow>
                 concat (map (\<lambda>a. filter (\<lambda>x. atom_name_of x = a) lines) atom_order))"
proof -
  let ?p2 = "phase2_input (phase1 ls S)"
  let ?lines = "filter (\<lambda>x. matching S x \<and> resid_of x = resid_of l) ?p2"
  have b: "(resid_of l, ?lines) \<in> set (residue_lines (phase2 ls S))"
    using assms(1,3) by (rule bucket_of_line)
  have l: "l \<in> set ?lines" using assms(1,3) by simp
  have l': "l' \<in> set ?lines" using assms(2,4,6) by simp
  have u: "k' = resid_of l \<and> lines' = ?lines"
    if "(k', lines') \<in> set (residue_lines (phase2 ls S))" "l \<in> set lines' \<or> l' \<in> set lines'"
    for k' lines'
  proof -
    from that(1) have e: "lines' = filter (\<lambda>x. matching S x \<and> resid_of x = k') ?p2"
      by (rule bucket_lines)
    with that(2) assms(6) have "k' = resid_of l" by auto
    with e show ?thesis by simp
  qed
  from l have "?lines \<noteq> []" by (rule member_nonempty)
  then have "reorder (ref_atom_order (phase1 ls S)) ?lines =
      Inr (case ref_atom_order (phase1 ls S) (resname_of (hd ?lines)) of
             None \<Rightarrow> ?lines
           | Some atom_order \<Rightarrow>
               concat (map (\<lambda>a. filter (\<lambda>x. atom_name_of x = a) ?lines) atom_order))"
    by (rule reorder_eq)
  with b l l' u show ?thesis by blast
qed

text \<open>
  The hypotheses hold for an \<^verbatim>\<open>ALA\<close> line of chain A and a \<^verbatim>\<open>GLY\<close> line of chain B
  with the same residue number 2: one bucket holds both, and it is reordered by the
  order learned for \<^verbatim>\<open>ALA\<close>, the residue name of its first line.
\<close>

theorem shared_resid_merged_into_one_bucket_witness:
  "''ATOM      3  CA  ALA A   2''
     \<in> set (phase2_input (phase1
          [''ATOM      1  N   ALA A   1'', ''ATOM      2  CA  ALA A   1'',
           ''ATOM      3  CA  ALA A   2'', ''ATOM      4  N   GLY B   2''] {''ALA'', ''GLY''})) \<and>
   ''ATOM      4  N   GLY B   2''
     \<in> set (phase2_input (phase1
          [''ATOM      1  N   ALA A   1'', ''ATOM      2  CA  ALA A   1'',
           ''ATOM      3  CA  ALA A   2'', ''ATOM      4  N   GLY B   2''] {''ALA'', ''GLY''})) \<and>
   matching {''ALA'', ''GLY''} ''ATOM      3  CA  ALA A   2'' \<and>
   matching {''ALA'', ''GLY''} ''ATOM      4  N   GLY B   2'' \<and>
   resname_of ''ATOM      3  CA  ALA A   2'' \<noteq> resname_of ''ATOM      4  N   GLY B   2'' \<and>
   resid_of ''ATOM      3  CA  ALA A   2'' = resid_of ''ATOM      4  N   GLY B   2'' \<and>
   residue_lines (phase2
          [''ATOM      1  N   ALA A   1'', ''ATOM      2  CA  ALA A   1'',
           ''ATOM      3  CA  ALA A   2'', ''ATOM      4  N   GLY B   2''] {''ALA'', ''GLY''})
     = [(''2'', [''ATOM      3  CA  ALA A   2'', ''ATOM      4  N   GLY B   2''])] \<and>
   run [''ATOM      1  N   ALA A   1'', ''ATOM      2  CA  ALA A   1'',
        ''ATOM      3  CA  ALA A   2'', ''ATOM      4  N   GLY B   2''] {''ALA'', ''GLY''}
     = Inr [''ATOM      1  N   ALA A   1'', ''ATOM      2  CA  ALA A   1'',
            ''ATOM      4  N   GLY B   2'', ''ATOM      3  CA  ALA A   2''] \<and>
   (\<exists>lines.
      (''2'', lines) \<in> set (residue_lines (phase2
          [''ATOM      1  N   ALA A   1'', ''ATOM      2  CA  ALA A   1'',
           ''ATOM      3  CA  ALA A   2'', ''ATOM      4  N   GLY B   2''] {''ALA'', ''GLY''})) \<and>
      ''ATOM      3  CA  ALA A   2'' \<in> set lines \<and> ''ATOM      4  N   GLY B   2'' \<in> set lines)"
proof -
  let ?inp = "[''ATOM      1  N   ALA A   1'', ''ATOM      2  CA  ALA A   1'',
               ''ATOM      3  CA  ALA A   2'', ''ATOM      4  N   GLY B   2'']"
  let ?S = "{''ALA'', ''GLY''}"
  have h1: "''ATOM      3  CA  ALA A   2'' \<in> set (phase2_input (phase1 ?inp ?S))"
    by code_simp
  have h2: "''ATOM      4  N   GLY B   2'' \<in> set (phase2_input (phase1 ?inp ?S))"
    by code_simp
  have h3: "matching ?S ''ATOM      3  CA  ALA A   2''"
    by code_simp
  have h4: "matching ?S ''ATOM      4  N   GLY B   2''"
    by code_simp
  have h5: "resname_of ''ATOM      3  CA  ALA A   2'' \<noteq> resname_of ''ATOM      4  N   GLY B   2''"
    by code_simp
  have h6: "resid_of ''ATOM      3  CA  ALA A   2'' = resid_of ''ATOM      4  N   GLY B   2''"
    by code_simp
  have k: "resid_of ''ATOM      3  CA  ALA A   2'' = ''2''"
    by code_simp
  have h7: "residue_lines (phase2 ?inp ?S)
      = [(''2'', [''ATOM      3  CA  ALA A   2'', ''ATOM      4  N   GLY B   2''])]"
    by code_simp
  have h8: "run ?inp ?S = Inr [''ATOM      1  N   ALA A   1'', ''ATOM      2  CA  ALA A   1'',
      ''ATOM      4  N   GLY B   2'', ''ATOM      3  CA  ALA A   2'']"
    by code_simp
  from shared_resid_merged_into_one_bucket [OF h1 h2 h3 h4 h5 h6]
  obtain lines where "(resid_of ''ATOM      3  CA  ALA A   2'', lines) \<in> set (residue_lines (phase2 ?inp ?S))"
    "''ATOM      3  CA  ALA A   2'' \<in> set lines" "''ATOM      4  N   GLY B   2'' \<in> set lines"
    by blast
  then have "\<exists>lines. (''2'', lines) \<in> set (residue_lines (phase2 ?inp ?S)) \<and>
      ''ATOM      3  CA  ALA A   2'' \<in> set lines \<and> ''ATOM      4  N   GLY B   2'' \<in> set lines"
    unfolding k by blast
  with h1 h2 h3 h4 h5 h6 h7 h8 show ?thesis by blast
qed

text \<open>
  Claim C9. \<^verbatim>\<open>run\<close> returns on every input and never raises. The three fields of a
  line too short to reach them are the empty string, and the empty string is a residue
  name like any other: a short record line is a matching line exactly when the empty
  string is in the set, and its empty atom name is learned and repeated.
\<close>

theorem run_never_raises:
  "(\<exists>out. run ls S = Inr out) \<and>
   atom_name_of (take 12 l) = [] \<and>
   resname_of (take 17 l) = [] \<and>
   resid_of (take 22 l) = [] \<and>
   matching S (take 17 l) = (startswith (take 17 l) records \<and> [] \<in> S) \<and>
   run [''TER'', ''TER''] {''''} = Inr [''TER'', ''TER'']"
proof -
  from run_shape [of ls S] have "\<exists>out. run ls S = Inr out" by blast
  moreover have "atom_name_of (take 12 l) = []" "resname_of (take 17 l) = []"
    "resid_of (take 22 l) = []"
    by (simp_all add: slice_def strip_def)
  moreover have "run [''TER'', ''TER''] {''''} = Inr [''TER'', ''TER'']"
    by code_simp
  ultimately show ?thesis by simp
qed

text \<open>
  Claim C10 fails as it is written. When \<^verbatim>\<open>fhandle\<close> is a list, the second loop reads
  all six lines again: \<^verbatim>\<open>run\<close> yields eight lines, the line \<^verbatim>\<open>REMARK x\<close> and the
  \<^verbatim>\<open>N\<close> lines of the \<^verbatim>\<open>ALA\<close> residues 2 and 3 twice each.
\<close>

theorem sequence_run_yields_lines_twice:
  "run_of (Sequence [''REMARK x'',
                     ''ATOM      1  N   GLY A   1'',
                     ''ATOM      2  N   ALA A   2'',
                     ''ATOM      3  N   ALA A   3'',
                     ''ATOM      4  CB  ALA A   3'',
                     ''END'']) {''ALA''}
     = Inr [''REMARK x'',
            ''ATOM      2  N   ALA A   2'',
            ''ATOM      3  N   ALA A   3'',
            ''ATOM      3  N   ALA A   3'',
            ''ATOM      2  N   ALA A   2'',
            ''REMARK x'',
            ''ATOM      1  N   GLY A   1'',
            ''END''] \<and>
   \<not> mset [''REMARK x'',
            ''ATOM      2  N   ALA A   2'',
            ''ATOM      3  N   ALA A   3'',
            ''ATOM      3  N   ALA A   3'',
            ''ATOM      2  N   ALA A   2'',
            ''REMARK x'',
            ''ATOM      1  N   GLY A   1'',
            ''END'']
       \<subseteq># mset [''REMARK x'',
                  ''ATOM      1  N   GLY A   1'',
                  ''ATOM      2  N   ALA A   2'',
                  ''ATOM      3  N   ALA A   3'',
                  ''ATOM      4  CB  ALA A   3'',
                  ''END'']"
proof -
  let ?inp = "[''REMARK x'', ''ATOM      1  N   GLY A   1'', ''ATOM      2  N   ALA A   2'',
               ''ATOM      3  N   ALA A   3'', ''ATOM      4  CB  ALA A   3'', ''END'']"
  let ?out = "[''REMARK x'', ''ATOM      2  N   ALA A   2'', ''ATOM      3  N   ALA A   3'',
               ''ATOM      3  N   ALA A   3'', ''ATOM      2  N   ALA A   2'', ''REMARK x'',
               ''ATOM      1  N   GLY A   1'', ''END'']"
  have r: "run_of (Sequence ?inp) {''ALA''} = Inr ?out"
    by code_simp
  have "\<not> mset ?out \<subseteq># mset ?inp"
  proof
    assume "mset ?out \<subseteq># mset ?inp"
    then have "count (mset ?out) ''REMARK x'' \<le> count (mset ?inp) ''REMARK x''"
      by (rule mset_subset_eq_count)
    then show False by simp
  qed
  with r show ?thesis by (intro conjI)
qed

text \<open>
  Claim C10, as the code has it. When \<^verbatim>\<open>fhandle\<close> is a one-shot iterator over the input
  lines, \<^verbatim>\<open>run\<close> returns, and the multiset of the lines it yields is contained in the
  multiset of the input lines: no line is yielded more often than the input holds it.
  The input is the lines read by phase 1 followed by the phase-2 input; what phase 1
  yields is contained in the lines it read; the lines of the buckets together with
  \<^verbatim>\<open>not_residues_lines\<close> are the phase-2 input, line for line as multisets; and the
  output is what phase 1 yielded, then for each bucket in turn lines contained in that
  bucket, then \<^verbatim>\<open>not_residues_lines\<close>.
\<close>

theorem iterator_run_yields_each_line_at_most_once:
  "\<exists>out pre outs.
     run_of (Iterator ls) S = Inr out \<and>
     mset out \<subseteq># mset ls \<and>
     ls = pre @ phase2_input (phase1 ls S) \<and>
     mset (yielded (phase1 ls S)) \<subseteq># mset pre \<and>
     mset (concat (map snd (residue_lines (phase2_of (Iterator ls) S)))) +
       mset (not_residues_lines (phase2_of (Iterator ls) S)) =
       mset (phase2_input (phase1 ls S)) \<and>
     list_all2 (\<lambda>b out. mset out \<subseteq># mset (snd b))
       (residue_lines (phase2_of (Iterator ls) S)) outs \<and>
     out = yielded (phase1 ls S) @ concat outs @ not_residues_lines (phase2_of (Iterator ls) S)"
proof -
  let ?p1 = "phase1 ls S"
  let ?bs = "residue_lines (phase2 ls S)"
  let ?held = "not_residues_lines (phase2 ls S)"
  from run_shape [of ls S] obtain outs where
    run: "run ls S = Inr (yielded ?p1 @ concat outs @
            filter (\<lambda>l. \<not> matching S l) (phase2_input ?p1))"
    and outs: "list_all2 (\<lambda>b out. reorder (ref_atom_order ?p1) (snd b) = Inr out) ?bs outs"
    by blast
  have held: "?held = filter (\<lambda>l. \<not> matching S l) (phase2_input ?p1)"
    by (rule phase2_not_residues)
  from outs have each: "list_all2 (\<lambda>b out. mset out \<subseteq># mset (snd b)) ?bs outs"
    by (rule list_all2_mono) (rule reorder_mset [of "ref_atom_order ?p1"], rule phase1_distinct)
  then have "mset (concat outs) \<subseteq># mset (concat (map snd ?bs))"
    by (rule concat_mset_mono)
  then have b: "mset (concat outs) \<subseteq># mset (filter (matching S) (phase2_input ?p1))"
    by (simp only: buckets_mset)
  have part: "mset (concat (map snd ?bs)) + mset ?held = mset (phase2_input ?p1)"
    by (simp only: buckets_mset held mset_filter multiset_partition [symmetric])
  from learn_split [of ls S Map.empty] obtain pre where
    ls: "ls = pre @ phase2_input ?p1"
    and y: "yielded ?p1 = filter (\<lambda>l. startswith l records \<longrightarrow> resname_of l \<in> S) pre"
    unfolding phase1_def by blast
  have yp: "mset (yielded ?p1) \<subseteq># mset pre"
    unfolding y by simp
  with b have "mset (yielded ?p1) + mset (concat outs) +
      mset (filter (\<lambda>l. \<not> matching S l) (phase2_input ?p1)) \<subseteq>#
      mset pre + mset (filter (matching S) (phase2_input ?p1)) +
      mset (filter (\<lambda>l. \<not> matching S l) (phase2_input ?p1))"
    by (intro subset_mset.add_mono) simp_all
  also have "\<dots> = mset pre + mset (phase2_input ?p1)"
    by (simp only: add.assoc mset_filter multiset_partition [symmetric])
  also have "\<dots> = mset ls"
    by (subst (3) ls) simp
  finally have sub: "mset (yielded ?p1 @ concat outs @ ?held) \<subseteq># mset ls"
    by (simp add: add.assoc held)
  from run have run': "run_of (Iterator ls) S = Inr (yielded ?p1 @ concat outs @ ?held)"
    by (simp only: run_of_Iterator held)
  from run' sub ls yp part each show ?thesis
    unfolding phase2_of_Iterator by blast
qed

end
